theory Spec2Isabelle
  imports Main "HOL-Library.AList"
begin

section \<open>The search store of the renderer (src/renderer/store/search/slice.ts)\<close>

text \<open>
  The slice keeps one \<open>ResultsView\<close> per view name. Every reducer of the slice mutates an
  immer draft of the state in place; here a reducer is a function from the state and the
  payload of the action to the next state.
\<close>

subsection \<open>Data\<close>

datatype RequestState = WAITING | REQUESTED | RECEIVED

text \<open>
  Modelled from the spec: the types \<open>ViewGame\<close>, \<open>PlaylistGame\<close> and \<open>Playlist\<close> are
  declared in the typings of the launcher, which are not among the sources. A playlist is
  an ordered sequence of entries \<open>(gameId, notes)\<close>. The slice reads the \<open>id\<close> of a game and
  the \<open>gameId\<close> of a playlist entry, and moves the rest around as it is; \<open>title_vg\<close>
  stands for the other fields of a game.
\<close>

record ViewGame =
  id_vg :: string
  title_vg :: string

record PlaylistGame =
  gameId :: string
  notes_pg :: string

record Playlist =
  id_pl :: string
  games_pl :: "PlaylistGame list"

text \<open>
  \<open>games: Record<number, ViewGame>\<close>. A JavaScript object enumerates its integer keys in
  ascending order whatever the order of the writes, and \<open>movePlaylistGame\<close> reads that
  enumeration (\<open>Object.entries\<close>). The object is therefore the list of its entries in
  ascending key order; \<open>obj_set k v\<close> is the assignment \<open>o[k] = v\<close> and \<open>map_of\<close> the
  read \<open>o[k]\<close>.
\<close>

type_synonym 'v NumRecord = "(nat \<times> 'v) list"

fun obj_set :: "nat \<Rightarrow> 'v \<Rightarrow> 'v NumRecord \<Rightarrow> 'v NumRecord" where
  "obj_set k v [] = [(k, v)]"
| "obj_set k v (e # es) =
     (if fst e = k then (k, v) # es
      else if k < fst e then (k, v) # e # es
      else e # obj_set k v es)"

text \<open>
  Modelled from the spec: the type \<open>PageKeyset\<close> is declared in \<open>@shared/back/types\<close>,
  which is not among the sources. The keyset is an ordered sequence of opaque cursor
  values, \<open>keyset[i]\<close> being the cursor needed to fetch page \<open>i + 1\<close>, and the slice
  initialises it with the empty array: a list over a type \<open>'c\<close> of cursors.
\<close>

type_synonym 'c PageKeyset = "'c list"

text \<open>
  \<open>ResultsViewData\<close>. \<open>pages: Record<number, RequestState>\<close> is only ever read and
  written by key (and merged by \<open>Object.assign\<close>), so it is a map.
\<close>

record 'c ResultsViewData =
  searchId :: int
  games :: "ViewGame NumRecord"
  total :: "nat option"
  pages :: "nat \<rightharpoonup> RequestState"
  keyset :: "'c PageKeyset"
  metaState :: RequestState

text \<open>The payload of \<open>addData\<close>; an optional field that is absent is \<open>None\<close>.\<close>

record 'c SearchAddDataActionData =
  searchId_d :: int
  page_d :: "nat option"
  games_d :: "ViewGame list option"
  total_d :: "nat option"
  pages_d :: "(nat \<rightharpoonup> RequestState) option"
  keyset_d :: "'c PageKeyset option"

text \<open>
  \<open>SearchQuery\<close> and \<open>AdvancedFilter\<close> come from outside the slice, which never looks
  into an advanced filter (type \<open>'af\<close>) and reads of a search query only the three fields
  below; \<open>rest_sq\<close> (type \<open>'sq\<close>) stands for what \<open>getDefaultGameSearch()\<close> supplies.
\<close>

record 'sq SearchQuery =
  viewId :: string
  searchId_sq :: int
  page_sq :: nat
  rest_sq :: 'sq

text \<open>
  \<open>ResultsView\<close>, without \<open>textPositions\<close>: its element type is declared elsewhere, and it
  is the empty array in every view the slice creates and is never written afterwards.
\<close>

record ('c, 'af, 'sq) ResultsView =
  id_v :: string
  library :: "string option"
  selectedGame :: "ViewGame option"
  selectedPlaylist :: "Playlist option"
  data :: "'c ResultsViewData"
  orderBy :: string
  orderReverse :: string
  text_v :: string
  advancedFilter :: 'af
  searchFilter :: "'sq SearchQuery"
  loaded :: bool
  expanded :: bool
  gridScrollCol :: "nat option"
  gridScrollRow :: "nat option"
  gridScrollTop :: "nat option"
  listScrollRow :: "nat option"

text \<open>
  \<open>views: Record<string, ResultsView>\<close>: the entries of the object in the order in which
  the keys were first written (the order JavaScript keeps for string keys; a view whose
  name is the decimal form of an integer would be enumerated first, and no reducer
  below depends on the order, only on the number of keys). \<open>AList.update\<close> is the
  assignment \<open>views[k] = v\<close>, \<open>AList.delete\<close> is \<open>delete views[k]\<close>, \<open>map_of\<close> the read.
  The \<open>dropdowns\<close> of the state are left out: no reducer below touches them.
\<close>

record ('c, 'af, 'sq) SearchState =
  views :: "(string \<times> ('c, 'af, 'sq) ResultsView) list"

record 'af StoredView =
  view_sv :: string
  text_sv :: string
  advancedFilter_sv :: 'af
  orderBy_sv :: string
  orderReverse_sv :: string
  expanded_sv :: bool

text \<open>
  What the slice imports from modules that are not among the sources, or reads from the
  global \<open>window.Shared\<close>: the page size, the two default constructors and the
  preference \<open>loadViewsText\<close>.
\<close>

record ('af, 'sq) Env =
  VIEW_PAGE_SIZE :: nat
  getDefaultAdvancedFilter :: "string option \<Rightarrow> 'af"
  getDefaultGameSearch :: 'sq
  loadViewsText :: bool

definition GENERAL_VIEW_ID :: string where
  "GENERAL_VIEW_ID = ''!general!''"

subsection \<open>The cache of a view: setSearchId and addData\<close>

text \<open>
  The object literal that \<open>setSearchId\<close> and \<open>addData\<close> both assign to \<open>view.data\<close> when
  a newer search id arrives.
\<close>

definition freshData :: "int \<Rightarrow> 'c ResultsViewData" where
  "freshData sid =
     \<lparr>searchId = sid, games = [], total = None, pages = Map.empty, keyset = [],
      metaState = REQUESTED\<rparr>"

definition setSearchId ::
  "('c, 'af, 'sq) SearchState \<Rightarrow> string \<Rightarrow> int \<Rightarrow> ('c, 'af, 'sq) SearchState" where
  "setSearchId state view_p searchId_p =
     (case map_of (views state) view_p of
        None \<Rightarrow> state
      | Some view \<Rightarrow>
          if searchId (data view) < searchId_p
          then state\<lparr>views := AList.update view_p (view\<lparr>data := freshData searchId_p\<rparr>) (views state)\<rparr>
          else state)"

text \<open>
  The loop \<open>for (let i = 0; i < length; i++) pages[i] = WAITING\<close> of \<open>addData\<close>, run from
  \<open>i\<close> with \<open>n\<close> rounds left.
\<close>

fun waitingPages :: "nat \<Rightarrow> nat \<Rightarrow> (nat \<rightharpoonup> RequestState) \<Rightarrow> (nat \<rightharpoonup> RequestState)" where
  "waitingPages i 0 ps = ps"
| "waitingPages i (Suc n) ps = waitingPages (Suc i) n (ps(i \<mapsto> WAITING))"

definition keysetPages :: "'c PageKeyset \<Rightarrow> (nat \<rightharpoonup> RequestState)" where
  "keysetPages ks = (waitingPages 0 (length ks + 1) Map.empty)(0 \<mapsto> RECEIVED)"

text \<open>
  The loop \<open>for (let i = 0; i < data.games.length; i++) view.data.games[startIdx + i] = data.games[i]\<close>,
  run from \<open>i\<close> on the games that are left.
\<close>

fun writeGames :: "nat \<Rightarrow> nat \<Rightarrow> ViewGame list \<Rightarrow> ViewGame NumRecord \<Rightarrow> ViewGame NumRecord" where
  "writeGames startIdx i [] gs = gs"
| "writeGames startIdx i (g # rest) gs = writeGames startIdx (Suc i) rest (obj_set (startIdx + i) g gs)"

text \<open>
  The body of \<open>addData\<close> for a view that exists. Every block of it but one writes
  \<open>view.data\<close> only, and is a function on the cache here; the block for \<open>total\<close> also
  clears three scroll positions of the view, which \<open>addData_view\<close> does.
\<close>

definition addTotal :: "'c SearchAddDataActionData \<Rightarrow> 'c ResultsViewData \<Rightarrow> 'c ResultsViewData" where
  "addTotal d vd = (case total_d d of None \<Rightarrow> vd | Some t \<Rightarrow> vd\<lparr>total := Some t\<rparr>)"

definition addKeyset :: "'c SearchAddDataActionData \<Rightarrow> 'c ResultsViewData \<Rightarrow> 'c ResultsViewData" where
  "addKeyset d vd =
     (case keyset_d d of None \<Rightarrow> vd | Some ks \<Rightarrow> vd\<lparr>keyset := ks, pages := keysetPages ks\<rparr>)"

definition addPages :: "'c SearchAddDataActionData \<Rightarrow> 'c ResultsViewData \<Rightarrow> 'c ResultsViewData" where
  "addPages d vd = (case pages_d d of None \<Rightarrow> vd | Some ps \<Rightarrow> vd\<lparr>pages := pages vd ++ ps\<rparr>)"

definition addGames ::
  "nat \<Rightarrow> 'c SearchAddDataActionData \<Rightarrow> 'c ResultsViewData \<Rightarrow> 'c ResultsViewData" where
  "addGames pageSize d vd =
     (case page_d d of
        None \<Rightarrow> vd
      | Some p \<Rightarrow>
          (case games_d d of
             None \<Rightarrow> vd
           | Some gs \<Rightarrow>
               if p = 0 \<and> length gs = 0
               then vd\<lparr>total := Some 0, metaState := RECEIVED\<rparr>
               else vd\<lparr>games := writeGames (pageSize * p) 0 gs (games vd),
                       pages := (pages vd)(p \<mapsto> RECEIVED),
                       metaState := RECEIVED\<rparr>))"

definition addData_view ::
  "nat \<Rightarrow> ('c, 'af, 'sq) ResultsView \<Rightarrow> 'c SearchAddDataActionData \<Rightarrow> ('c, 'af, 'sq) ResultsView" where
  "addData_view pageSize view d =
     (if searchId (data view) > searchId_d d then view
      else
        let data1 = (if searchId (data view) < searchId_d d
                     then freshData (searchId_d d) else data view);
            view1 = (case total_d d of
                       None \<Rightarrow> view
                     | Some t \<Rightarrow> view\<lparr>gridScrollCol := None, gridScrollRow := None, listScrollRow := None\<rparr>)
        in view1\<lparr>data := addGames pageSize d (addPages d (addKeyset d (addTotal d data1)))\<rparr>)"

definition addData ::
  "('af, 'sq) Env \<Rightarrow> ('c, 'af, 'sq) SearchState \<Rightarrow> string \<Rightarrow> 'c SearchAddDataActionData
     \<Rightarrow> ('c, 'af, 'sq) SearchState" where
  "addData env state view_p d =
     (case map_of (views state) view_p of
        None \<Rightarrow> state
      | Some view \<Rightarrow>
          state\<lparr>views := AList.update view_p (addData_view (VIEW_PAGE_SIZE env) view d) (views state)\<rparr>)"

subsection \<open>Fetching pages: requestRange\<close>

text \<open>
  \<open>view.data.keyset[i - 1]\<close> used as a condition: the element exists and is not one of
  the values JavaScript takes for false. Which cursors are falsy depends on the type of
  the cursors, which is declared outside the sources, so the test \<open>truthy\<close> is a
  parameter. The index is only read for \<open>i > 0\<close>.
\<close>

definition keysetAt :: "('c \<Rightarrow> bool) \<Rightarrow> 'c PageKeyset \<Rightarrow> int \<Rightarrow> bool" where
  "keysetAt truthy ks j = (0 \<le> j \<and> nat j < length ks \<and> truthy (ks ! nat j))"

text \<open>
  The loop \<open>for (let i = start; i < end; i++)\<close>. It writes \<open>view.data.pages\<close> only; the
  request it sends to the back end for every page it marks does not touch the state.
\<close>

function requestRange_loop ::
  "('c \<Rightarrow> bool) \<Rightarrow> 'c PageKeyset \<Rightarrow> int \<Rightarrow> int \<Rightarrow> (nat \<rightharpoonup> RequestState)
     \<Rightarrow> (nat \<rightharpoonup> RequestState)" where
  "requestRange_loop truthy ks i end_i ps =
     (if i < end_i
      then requestRange_loop truthy ks (i + 1) end_i
             (if i > 0 \<and> ps (nat i) = Some WAITING \<and> keysetAt truthy ks (i - 1)
              then ps(nat i \<mapsto> REQUESTED) else ps)
      else ps)"
  by pat_completeness auto
termination
  by (relation "measure (\<lambda>(truthy, ks, i, end_i, ps). nat (end_i - i))") auto

record SearchRequestRange =
  view_rr :: string
  searchId_rr :: int
  start_rr :: int
  count_rr :: int

definition requestRange ::
  "('c \<Rightarrow> bool) \<Rightarrow> ('c, 'af, 'sq) SearchState \<Rightarrow> SearchRequestRange \<Rightarrow> ('c, 'af, 'sq) SearchState" where
  "requestRange truthy state payload =
     (case map_of (views state) (view_rr payload) of
        None \<Rightarrow> state
      | Some view \<Rightarrow>
          if searchId (data view) = searchId_rr payload
          then state\<lparr>views := AList.update (view_rr payload)
                 (view\<lparr>data := (data view)\<lparr>pages :=
                    requestRange_loop truthy (keyset (data view)) (start_rr payload)
                      (start_rr payload + count_rr payload) (pages (data view))\<rparr>\<rparr>)
                 (views state)\<rparr>
          else state)"

subsection \<open>Reordering a playlist: movePlaylistGame\<close>

text \<open>\<open>Array.prototype.findIndex\<close>: the index of the first element that satisfies the test, or -1.\<close>

fun findIndex :: "('a \<Rightarrow> bool) \<Rightarrow> 'a list \<Rightarrow> int" where
  "findIndex P [] = - 1"
| "findIndex P (x # xs) =
     (if P x then 0 else (let r = findIndex P xs in if r < 0 then - 1 else r + 1))"

text \<open>
  \<open>Array.prototype.splice\<close>: a negative start counts from the end and is clamped at 0, a
  start beyond the end is clamped to the length. \<open>splice_remove1 start xs\<close> is the array
  after \<open>xs.splice(start, 1)\<close>, \<open>splice_insert start x xs\<close> the array after
  \<open>xs.splice(start, 0, x)\<close>.
\<close>

definition splice_start :: "int \<Rightarrow> nat \<Rightarrow> nat" where
  "splice_start start len =
     (if start < 0 then nat (max (int len + start) 0) else min (nat start) len)"

definition splice_remove1 :: "int \<Rightarrow> 'a list \<Rightarrow> 'a list" where
  "splice_remove1 start xs =
     (let n = splice_start start (length xs) in take n xs @ drop (Suc n) xs)"

definition splice_insert :: "int \<Rightarrow> 'a \<Rightarrow> 'a list \<Rightarrow> 'a list" where
  "splice_insert start x xs =
     (let n = splice_start start (length xs) in take n xs @ x # drop n xs)"

text \<open>
  The first half of \<open>movePlaylistGame\<close>, on \<open>view.selectedPlaylist.games\<close>, given the two
  indices found in the list before the move. \<open>sourceIdx\<close> is an index of the list here, so
  \<open>splice(sourceIdx, 1)[0]\<close> is the element at that index.
\<close>

definition movePlaylistEntry ::
  "string \<Rightarrow> int \<Rightarrow> int \<Rightarrow> PlaylistGame list \<Rightarrow> PlaylistGame list" where
  "movePlaylistEntry destGameId sourceIdx destIdx pgs =
     (let sourceGame = pgs ! nat sourceIdx;
          pgs1 = splice_remove1 sourceIdx pgs;
          destIdx1 = findIndex (\<lambda>g. gameId g = destGameId) pgs1
      in if sourceIdx < destIdx
         then (if destIdx1 < int (length pgs1)
               then splice_insert (destIdx1 + 1) sourceGame pgs1
               else pgs1 @ [sourceGame])
         else splice_insert destIdx1 sourceGame pgs1)"

text \<open>
  The second half, on the array \<open>games\<close> of the entries \<open>[offset, game]\<close> of
  \<open>view.data.games\<close>. \<open>games[i][0]--\<close> and \<open>games[i][0]++\<close> change the offset of the
  entry at index \<open>i\<close>. The entries of an object come in strictly ascending key order, so
  an entry at an index \<open>i \<ge> 1\<close> has an offset of at least 1 and the decrement stays in
  the natural numbers.
\<close>

definition decOffset :: "nat \<Rightarrow> (nat \<times> 'v) list \<Rightarrow> (nat \<times> 'v) list" where
  "decOffset i es = es[i := (fst (es ! i) - 1, snd (es ! i))]"

definition incOffset :: "nat \<Rightarrow> (nat \<times> 'v) list \<Rightarrow> (nat \<times> 'v) list" where
  "incOffset i es = es[i := (fst (es ! i) + 1, snd (es ! i))]"

definition fromEntries :: "(nat \<times> 'v) list \<Rightarrow> 'v NumRecord" where
  "fromEntries es = fold (\<lambda>e obj. obj_set (fst e) (snd e) obj) es []"

definition moveGameEntries ::
  "string \<Rightarrow> string \<Rightarrow> int \<Rightarrow> ViewGame NumRecord \<Rightarrow> ViewGame NumRecord" where
  "moveGameEntries sourceGameId destGameId sourceIdx games0 =
     (let sourceIndex = findIndex (\<lambda>g. id_vg (snd g) = sourceGameId) games0;
          destIndex = findIndex (\<lambda>g. id_vg (snd g) = destGameId) games0
      in fromEntries
           (if sourceIndex > - 1 \<and> destIndex > - 1
            then
              (let games1 = games0[nat sourceIndex := (fst (games0 ! nat destIndex), snd (games0 ! nat sourceIndex))]
               in if sourceIdx < destIndex
                  then fold decOffset [nat (sourceIdx + 1) ..< nat (destIndex + 1)] games1
                  else fold incOffset [nat destIndex ..< nat sourceIndex] games1)
            else games0))"

record MovePlaylistGameData =
  view_mp :: string
  sourceGameId :: string
  destGameId :: string

definition movePlaylistGame ::
  "('c, 'af, 'sq) SearchState \<Rightarrow> MovePlaylistGameData \<Rightarrow> ('c, 'af, 'sq) SearchState" where
  "movePlaylistGame state payload =
     (case map_of (views state) (view_mp payload) of
        None \<Rightarrow> state
      | Some view \<Rightarrow>
          (case selectedPlaylist view of
             None \<Rightarrow> state
           | Some pl \<Rightarrow>
               let sourceIdx = findIndex (\<lambda>g. gameId g = sourceGameId payload) (games_pl pl);
                   destIdx = findIndex (\<lambda>g. gameId g = destGameId payload) (games_pl pl)
               in if sourceIdx > - 1 \<and> destIdx > - 1
                  then state\<lparr>views := AList.update (view_mp payload)
                         (view\<lparr>selectedPlaylist :=
                                 Some (pl\<lparr>games_pl := movePlaylistEntry (destGameId payload) sourceIdx destIdx (games_pl pl)\<rparr>),
                               data := (data view)\<lparr>games :=
                                 moveGameEntries (sourceGameId payload) (destGameId payload) sourceIdx
                                   (games (data view))\<rparr>\<rparr>)
                         (views state)\<rparr>
                  else state))"

subsection \<open>The registry of views\<close>

text \<open>
  The cache of a view that has not searched yet, as written in \<open>defaultGeneralState\<close>,
  \<open>addViews\<close>, \<open>deleteView\<close>, \<open>duplicateView\<close> and \<open>createViews\<close> (it has no \<open>total\<close>).
\<close>

definition emptyData :: "'c ResultsViewData" where
  "emptyData =
     \<lparr>searchId = 0, games = [], total = None, pages = Map.empty, keyset = [],
      metaState = WAITING\<rparr>"

text \<open>
  The view literal of \<open>addViews\<close>, \<open>deleteView\<close> and \<open>createViews\<close>; \<open>lib\<close> is the argument
  given to \<open>getDefaultAdvancedFilter\<close> (absent except in \<open>createViews\<close> for libraries).
\<close>

definition newView :: "('af, 'sq) Env \<Rightarrow> string option \<Rightarrow> string \<Rightarrow> ('c, 'af, 'sq) ResultsView" where
  "newView env lib name =
     \<lparr>id_v = name, library = None, selectedGame = None, selectedPlaylist = None,
      data = emptyData, orderBy = ''title'', orderReverse = ''ASC'', text_v = [],
      advancedFilter = getDefaultAdvancedFilter env lib,
      searchFilter = \<lparr>viewId = name, searchId_sq = 0, page_sq = 0, rest_sq = getDefaultGameSearch env\<rparr>,
      loaded = False, expanded = True,
      gridScrollCol = None, gridScrollRow = None, gridScrollTop = None, listScrollRow = None\<rparr>"

definition initialState :: "('af, 'sq) Env \<Rightarrow> ('c, 'af, 'sq) SearchState" where
  "initialState env = \<lparr>views = [(GENERAL_VIEW_ID, newView env None GENERAL_VIEW_ID)]\<rparr>"

text \<open>One round of the loop \<open>for (const view of payload.views)\<close> of \<open>addViews\<close> and \<open>createViews\<close>.\<close>

definition ensureView ::
  "('af, 'sq) Env \<Rightarrow> string option \<Rightarrow> string \<Rightarrow> (string \<times> ('c, 'af, 'sq) ResultsView) list
     \<Rightarrow> (string \<times> ('c, 'af, 'sq) ResultsView) list" where
  "ensureView env lib name vs =
     (case map_of vs name of
        Some v \<Rightarrow> vs
      | None \<Rightarrow> AList.update name (newView env lib name) vs)"

text \<open>
  One round of the loop over \<open>payload.storedViews\<close>; \<open>createViews\<close> also restores
  \<open>expanded\<close>, \<open>addViews\<close> does not.
\<close>

definition applyStoredView ::
  "('af, 'sq) Env \<Rightarrow> bool \<Rightarrow> 'af StoredView \<Rightarrow> (string \<times> ('c, 'af, 'sq) ResultsView) list
     \<Rightarrow> (string \<times> ('c, 'af, 'sq) ResultsView) list" where
  "applyStoredView env withExpanded sv vs =
     (case map_of vs (view_sv sv) of
        None \<Rightarrow> vs
      | Some view \<Rightarrow>
          AList.update (view_sv sv)
            (view\<lparr>text_v := (if loadViewsText env then text_sv sv else text_v view),
                  advancedFilter := advancedFilter_sv sv,
                  orderBy := orderBy_sv sv,
                  orderReverse := orderReverse_sv sv,
                  expanded := (if withExpanded then expanded_sv sv else expanded view)\<rparr>)
            vs)"

record 'af SearchCreateViewsAction =
  views_cv :: "string list"
  storedViews :: "'af StoredView list option"
  areLibraries :: bool

definition addViews ::
  "('af, 'sq) Env \<Rightarrow> ('c, 'af, 'sq) SearchState \<Rightarrow> 'af SearchCreateViewsAction \<Rightarrow> ('c, 'af, 'sq) SearchState" where
  "addViews env state payload =
     (let vs1 = fold (ensureView env None) (views_cv payload) (views state);
          vs2 = (case storedViews payload of
                   None \<Rightarrow> vs1
                 | Some svs \<Rightarrow> fold (applyStoredView env False) svs vs1)
      in state\<lparr>views := vs2\<rparr>)"

text \<open>
  \<open>createViews\<close> starts again from the registry \<open>{[GENERAL_VIEW_ID]: generalState}\<close>. In a
  state without a general view the source would store that key with the value
  \<open>undefined\<close>, which the type of the state excludes; the model starts from the empty
  registry there.
\<close>

definition createViews ::
  "('af, 'sq) Env \<Rightarrow> ('c, 'af, 'sq) SearchState \<Rightarrow> 'af SearchCreateViewsAction \<Rightarrow> ('c, 'af, 'sq) SearchState" where
  "createViews env state payload =
     (let vs0 = (case map_of (views state) GENERAL_VIEW_ID of
                   None \<Rightarrow> []
                 | Some generalState \<Rightarrow> [(GENERAL_VIEW_ID, generalState)]);
          vs1 = fold (\<lambda>name. ensureView env (if areLibraries payload then Some name else None) name)
                  (views_cv payload) vs0;
          vs2 = (case storedViews payload of
                   None \<Rightarrow> vs1
                 | Some svs \<Rightarrow> fold (applyStoredView env True) svs vs1)
      in state\<lparr>views := vs2\<rparr>)"

text \<open>
  \<open>deleteView\<close>. \<open>Object.keys(state.views).length\<close> is the number of entries. The reducer
  also appends \<open>'Browse'\<close> to the preference \<open>customViews\<close> when no other custom view is
  left; the preferences are not part of the state of the slice.
\<close>

definition deleteView ::
  "('af, 'sq) Env \<Rightarrow> ('c, 'af, 'sq) SearchState \<Rightarrow> string \<Rightarrow> ('c, 'af, 'sq) SearchState" where
  "deleteView env state view_p =
     (let vs1 = (case map_of (views state) view_p of
                   None \<Rightarrow> views state
                 | Some v \<Rightarrow> AList.delete view_p (views state))
      in if length vs1 = 1
         then state\<lparr>views := AList.update ''Browse'' (newView env None ''Browse'') vs1\<rparr>
         else state\<lparr>views := vs1\<rparr>)"

definition renameView ::
  "('c, 'af, 'sq) SearchState \<Rightarrow> string \<Rightarrow> string \<Rightarrow> ('c, 'af, 'sq) SearchState" where
  "renameView state old_p new_p =
     (case map_of (views state) old_p of
        None \<Rightarrow> state
      | Some view \<Rightarrow>
          state\<lparr>views := AList.delete old_p (AList.update new_p (view\<lparr>id_v := new_p\<rparr>) (views state))\<rparr>)"

definition duplicateView ::
  "('c, 'af, 'sq) SearchState \<Rightarrow> string \<Rightarrow> string \<Rightarrow> ('c, 'af, 'sq) SearchState" where
  "duplicateView state oldView view_p =
     (case map_of (views state) oldView of
        None \<Rightarrow> state
      | Some old \<Rightarrow>
          (case map_of (views state) view_p of
             Some v \<Rightarrow> state
           | None \<Rightarrow>
               state\<lparr>views := AList.update view_p
                        (old\<lparr>id_v := view_p, loaded := False, data := emptyData\<rparr>) (views state)\<rparr>))"

subsection \<open>Sequences of cache actions\<close>

text \<open>
  The two actions of the slice that write \<open>view.data.searchId\<close>, and the store running a
  list of them in order.
\<close>

datatype 'c CacheAction =
  AddData string "'c SearchAddDataActionData"
| SetSearchId string int

fun dispatch ::
  "('af, 'sq) Env \<Rightarrow> ('c, 'af, 'sq) SearchState \<Rightarrow> 'c CacheAction \<Rightarrow> ('c, 'af, 'sq) SearchState" where
  "dispatch env state (AddData v d) = addData env state v d"
| "dispatch env state (SetSearchId v sid) = setSearchId state v sid"

definition dispatchAll ::
  "('af, 'sq) Env \<Rightarrow> ('c, 'af, 'sq) SearchState \<Rightarrow> 'c CacheAction list \<Rightarrow> ('c, 'af, 'sq) SearchState" where
  "dispatchAll env state acts = foldl (dispatch env) state acts"

subsection \<open>Reading a page state\<close>

definition pageStateOf :: "('c, 'af, 'sq) SearchState \<Rightarrow> string \<Rightarrow> nat \<Rightarrow> RequestState option" where
  "pageStateOf state name p =
     (case map_of (views state) name of None \<Rightarrow> None | Some view \<Rightarrow> pages (data view) p)"

subsection \<open>Example states and payloads\<close>

text \<open>
  An environment with a page size of 250 and trivial filters, the view \<open>Browse\<close> at search
  id 1 with an empty cache, and the same view with one page of an older search in it.
\<close>

definition env0 :: "(unit, unit) Env" where
  "env0 = \<lparr>VIEW_PAGE_SIZE = 250, getDefaultAdvancedFilter = (\<lambda>lib. ()), getDefaultGameSearch = (),
            loadViewsText = True\<rparr>"

definition game :: "string \<Rightarrow> ViewGame" where
  "game name = \<lparr>id_vg = name, title_vg = name\<rparr>"

definition browseAt1 :: "(string, unit, unit) ResultsView" where
  "browseAt1 = (newView env0 None ''Browse'')\<lparr>data := emptyData\<lparr>searchId := 1\<rparr>\<rparr>"

definition stateAt1 :: "(string, unit, unit) SearchState" where
  "stateAt1 = \<lparr>views = [(GENERAL_VIEW_ID, newView env0 None GENERAL_VIEW_ID), (''Browse'', browseAt1)]\<rparr>"

definition browseLoaded :: "(string, unit, unit) ResultsView" where
  "browseLoaded =
     (newView env0 None ''Browse'')
       \<lparr>data := \<lparr>searchId = 1, games = [(0, game ''old0''), (1, game ''old1'')], total = Some 2,
                  pages = [0 \<mapsto> RECEIVED, 1 \<mapsto> WAITING], keyset = [''c1''], metaState = RECEIVED\<rparr>\<rparr>"

definition stateLoaded :: "(string, unit, unit) SearchState" where
  "stateLoaded = \<lparr>views = [(GENERAL_VIEW_ID, newView env0 None GENERAL_VIEW_ID), (''Browse'', browseLoaded)]\<rparr>"

text \<open>The payloads \<open>{searchId: 1, keyset: ['c1', 'c2'], total: 3}\<close>, the same with
  \<open>pages: {1: REQUESTED}\<close>, \<open>{searchId: 0, page: 1, games: [gX]}\<close> and
  \<open>{searchId: 2, page: 0, games: [g1]}\<close>.\<close>

definition keysetPayload :: "string SearchAddDataActionData" where
  "keysetPayload =
     \<lparr>searchId_d = 1, page_d = None, games_d = None, total_d = Some 3,
      pages_d = None, keyset_d = Some [''c1'', ''c2'']\<rparr>"

definition keysetAndPages :: "string SearchAddDataActionData" where
  "keysetAndPages =
     \<lparr>searchId_d = 1, page_d = None, games_d = None, total_d = Some 3,
      pages_d = Some [1 \<mapsto> REQUESTED], keyset_d = Some [''c1'', ''c2'']\<rparr>"

definition stalePayload :: "string SearchAddDataActionData" where
  "stalePayload =
     \<lparr>searchId_d = 0, page_d = Some 1, games_d = Some [game ''gX''], total_d = None,
      pages_d = None, keyset_d = None\<rparr>"

definition newerPayload :: "string SearchAddDataActionData" where
  "newerPayload =
     \<lparr>searchId_d = 2, page_d = Some 0, games_d = Some [game ''g1''], total_d = None,
      pages_d = None, keyset_d = None\<rparr>"

text \<open>
  The view \<open>Browse\<close> after the keyset of search 1 has arrived, a request for the pages 0
  to 2 of that search, and the same request made for search 0.
\<close>

definition browseKeyed :: "(string, unit, unit) ResultsView" where
  "browseKeyed =
     (newView env0 None ''Browse'')
       \<lparr>data := \<lparr>searchId = 1, games = [], total = Some 3,
                  pages = [0 \<mapsto> RECEIVED, 1 \<mapsto> WAITING, 2 \<mapsto> WAITING],
                  keyset = [''c1'', ''c2''], metaState = REQUESTED\<rparr>\<rparr>"

definition stateKeyed :: "(string, unit, unit) SearchState" where
  "stateKeyed = \<lparr>views = [(GENERAL_VIEW_ID, newView env0 None GENERAL_VIEW_ID), (''Browse'', browseKeyed)]\<rparr>"

definition rangeRequest :: SearchRequestRange where
  "rangeRequest = \<lparr>view_rr = ''Browse'', searchId_rr = 1, start_rr = 0, count_rr = 3\<rparr>"

definition staleRangeRequest :: SearchRequestRange where
  "staleRangeRequest = \<lparr>view_rr = ''Browse'', searchId_rr = 0, start_rr = 0, count_rr = 3\<rparr>"

text \<open>A cursor that is a string is falsy when it is the empty string.\<close>

definition truthyString :: "string \<Rightarrow> bool" where
  "truthyString c = (c \<noteq> [])"

subsection \<open>Sequences of registry actions\<close>

text \<open>
  The five reducers that add, remove or rename entries of \<open>state.views\<close>, and the store
  running a list of them in order. \<open>aimedAtGeneral\<close> tells whether an action is a
  \<open>deleteView\<close> of the general view or a \<open>renameView\<close> with the general view as the
  view to rename.
\<close>

datatype 'af RegistryAction =
  AddViews "'af SearchCreateViewsAction"
| CreateViews "'af SearchCreateViewsAction"
| DeleteView string
| RenameView string string
| DuplicateView string string

fun registryStep ::
  "('af, 'sq) Env \<Rightarrow> ('c, 'af, 'sq) SearchState \<Rightarrow> 'af RegistryAction \<Rightarrow> ('c, 'af, 'sq) SearchState" where
  "registryStep env state (AddViews payload) = addViews env state payload"
| "registryStep env state (CreateViews payload) = createViews env state payload"
| "registryStep env state (DeleteView v) = deleteView env state v"
| "registryStep env state (RenameView old_p new_p) = renameView state old_p new_p"
| "registryStep env state (DuplicateView oldView v) = duplicateView state oldView v"

definition registryRun ::
  "('af, 'sq) Env \<Rightarrow> ('c, 'af, 'sq) SearchState \<Rightarrow> 'af RegistryAction list \<Rightarrow> ('c, 'af, 'sq) SearchState" where
  "registryRun env state acts = foldl (registryStep env) state acts"

fun aimedAtGeneral :: "'af RegistryAction \<Rightarrow> bool" where
  "aimedAtGeneral (DeleteView v) = (v = GENERAL_VIEW_ID)"
| "aimedAtGeneral (RenameView old_p new_p) = (old_p = GENERAL_VIEW_ID)"
| "aimedAtGeneral (AddViews payload) = False"
| "aimedAtGeneral (CreateViews payload) = False"
| "aimedAtGeneral (DuplicateView oldView v) = False"

text \<open>
  A registry with the general view and the views \<open>Browse\<close> and \<open>Arcade\<close>, the latter at
  search id 4, and a stored view for the general view.
\<close>

definition arcadeView :: "(string, unit, unit) ResultsView" where
  "arcadeView = (newView env0 None ''Arcade'')\<lparr>data := emptyData\<lparr>searchId := 4\<rparr>\<rparr>"

definition stateTwoViews :: "(string, unit, unit) SearchState" where
  "stateTwoViews =
     \<lparr>views = [(GENERAL_VIEW_ID, newView env0 None GENERAL_VIEW_ID), (''Browse'', browseLoaded),
               (''Arcade'', arcadeView)]\<rparr>"

definition storedGeneral :: "unit StoredView" where
  "storedGeneral =
     \<lparr>view_sv = GENERAL_VIEW_ID, text_sv = ''mario'', advancedFilter_sv = (),
      orderBy_sv = ''developer'', orderReverse_sv = ''DESC'', expanded_sv = False\<rparr>"

subsection \<open>Reading a playlist and the records of a view\<close>

definition playlistOf :: "('c, 'af, 'sq) SearchState \<Rightarrow> string \<Rightarrow> string list" where
  "playlistOf state name =
     (case map_of (views state) name of
        None \<Rightarrow> []
      | Some view \<Rightarrow>
          (case selectedPlaylist view of None \<Rightarrow> [] | Some pl \<Rightarrow> map gameId (games_pl pl)))"

definition recordsOf :: "('c, 'af, 'sq) SearchState \<Rightarrow> string \<Rightarrow> (nat \<times> string) list" where
  "recordsOf state name =
     (case map_of (views state) name of
        None \<Rightarrow> []
      | Some view \<Rightarrow> map (\<lambda>e. (fst e, id_vg (snd e))) (games (data view)))"

text \<open>
  The view \<open>Browse\<close> showing the playlist \<open>[A, B, C, D]\<close>, with the four games at the
  offsets 0 to 3, and the two moves \<open>A\<close> after \<open>C\<close> and \<open>D\<close> after \<open>B\<close>.
\<close>

definition entry :: "string \<Rightarrow> PlaylistGame" where
  "entry name = \<lparr>gameId = name, notes_pg = []\<rparr>"

definition playlistABCD :: Playlist where
  "playlistABCD = \<lparr>id_pl = ''p1'', games_pl = [entry ''A'', entry ''B'', entry ''C'', entry ''D'']\<rparr>"





text \<open>
  The same playlist in a view whose search leaves \<open>A\<close> out, so that the records are
  \<open>B\<close>, \<open>C\<close>, \<open>D\<close> at the offsets 0 to 2, and the move \<open>B\<close> after \<open>D\<close>.
\<close>

definition browseFiltered :: "(string, unit, unit) ResultsView" where
  "browseFiltered =
     (newView env0 None ''Browse'')
       \<lparr>selectedPlaylist := Some playlistABCD,
        data := \<lparr>searchId = 1,
                  games = [(0, game ''B''), (1, game ''C''), (2, game ''D'')],
                  total = Some 3, pages = [0 \<mapsto> RECEIVED], keyset = [], metaState = RECEIVED\<rparr>\<rparr>"

definition stateFiltered :: "(string, unit, unit) SearchState" where
  "stateFiltered =
     \<lparr>views = [(GENERAL_VIEW_ID, newView env0 None GENERAL_VIEW_ID), (''Browse'', browseFiltered)]\<rparr>"

definition moveBafterD :: MovePlaylistGameData where
  "moveBafterD = \<lparr>view_mp = ''Browse'', sourceGameId = ''B'', destGameId = ''D''\<rparr>"

section \<open>Properties\<close>

subsection \<open>Writing games into the record of a view\<close>

lemma obj_set_idem: "obj_set k v (obj_set k v m) = obj_set k v m"
  by (induction m) auto

lemma obj_set_fix_other:
  "k \<noteq> k' \<Longrightarrow> obj_set k v m = m \<Longrightarrow> obj_set k v (obj_set k' v' m) = obj_set k' v' m"
  by (induction m) (auto split: if_splits)

lemma writeGames_keeps_fix:
  "obj_set k v m = m \<Longrightarrow> k < s + i \<Longrightarrow> obj_set k v (writeGames s i gs m) = writeGames s i gs m"
  by (induction gs arbitrary: i m) (auto simp: obj_set_fix_other)

lemma writeGames_fix:
  "j < length gs \<Longrightarrow> obj_set (s + i + j) (gs ! j) (writeGames s i gs m) = writeGames s i gs m"
proof (induction gs arbitrary: i j m)
  case Nil
  then show ?case by simp
next
  case (Cons g gs)
  show ?case
  proof (cases j)
    case 0
    then show ?thesis
      by (simp add: writeGames_keeps_fix obj_set_idem)
  next
    case (Suc j')
    with Cons.prems have "j' < length gs" by simp
    from Cons.IH [OF this, of "Suc i"] Suc show ?thesis by simp
  qed
qed

lemma writeGames_id:
  "(\<And>j. j < length gs \<Longrightarrow> obj_set (s + i + j) (gs ! j) m = m) \<Longrightarrow> writeGames s i gs m = m"
proof (induction gs arbitrary: i m)
  case Nil
  then show ?case by simp
next
  case (Cons g gs)
  from Cons.prems [of 0] have h: "obj_set (s + i) g m = m" by simp
  have "writeGames s (Suc i) gs m = m"
  proof (rule Cons.IH)
    fix j assume "j < length gs"
    then show "obj_set (s + Suc i + j) (gs ! j) m = m"
      using Cons.prems [of "Suc j"] by simp
  qed
  with h show ?case by simp
qed

lemma writeGames_idem: "writeGames s i gs (writeGames s i gs m) = writeGames s i gs m"
  by (rule writeGames_id) (rule writeGames_fix)

subsection \<open>The search id of a view\<close>

lemma searchId_addTotal: "searchId (addTotal d vd) = searchId vd"
  by (simp add: addTotal_def split: option.splits)

lemma searchId_addKeyset: "searchId (addKeyset d vd) = searchId vd"
  by (simp add: addKeyset_def split: option.splits)

lemma searchId_addPages: "searchId (addPages d vd) = searchId vd"
  by (simp add: addPages_def split: option.splits)

lemma searchId_addGames: "searchId (addGames n d vd) = searchId vd"
  by (simp add: addGames_def split: option.splits)

lemmas searchId_add = searchId_addTotal searchId_addKeyset searchId_addPages searchId_addGames

lemma searchId_addData_view:
  "searchId (data (addData_view n v d)) = max (searchId (data v)) (searchId_d d)"
  by (simp add: addData_view_def Let_def searchId_add freshData_def split: option.splits)

lemma addData_lookup:
  "map_of (views (addData env st v d)) u =
     (if u = v then map_option (\<lambda>w. addData_view (VIEW_PAGE_SIZE env) w d) (map_of (views st) v)
      else map_of (views st) u)"
  by (simp add: addData_def update_conv' split: option.splits)

lemma setSearchId_lookup:
  "map_of (views (setSearchId st v sid)) u =
     (if u = v
      then map_option (\<lambda>w. if searchId (data w) < sid then w\<lparr>data := freshData sid\<rparr> else w)
             (map_of (views st) v)
      else map_of (views st) u)"
  by (simp add: setSearchId_def update_conv' split: option.splits)

lemma dispatch_searchId:
  assumes "map_of (views st) v = Some w"
  shows "\<exists>w'. map_of (views (dispatch env st a)) v = Some w' \<and> searchId (data w) \<le> searchId (data w')"
proof (cases a)
  case (AddData u d)
  with assms show ?thesis
    by (cases "u = v") (simp_all add: addData_lookup searchId_addData_view)
next
  case (SetSearchId u sid)
  with assms show ?thesis
    by (cases "u = v") (simp_all add: setSearchId_lookup freshData_def)
qed

text \<open>
  C1. Whatever list of \<open>addData\<close> and \<open>setSearchId\<close> actions the store runs, on whatever
  views, a view that is in the registry is still there afterwards and its
  \<open>data.searchId\<close> is not smaller than it was.
\<close>

theorem searchId_non_decreasing:
  "map_of (views st) v = Some w \<Longrightarrow>
   \<exists>w'. map_of (views (dispatchAll env st acts)) v = Some w' \<and> searchId (data w) \<le> searchId (data w')"
proof (induction acts arbitrary: st w)
  case Nil
  then show ?case by (simp add: dispatchAll_def)
next
  case (Cons a acts)
  from dispatch_searchId [OF Cons.prems, of env a]
  obtain w1 where w1: "map_of (views (dispatch env st a)) v = Some w1"
    and le1: "searchId (data w) \<le> searchId (data w1)" by blast
  from Cons.IH [OF w1]
  obtain w' where "map_of (views (dispatchAll env (dispatch env st a) acts)) v = Some w'"
    and "searchId (data w1) \<le> searchId (data w')" by blast
  with le1 show ?case by (auto simp: dispatchAll_def)
qed

theorem searchId_non_decreasing_witness:
  "map_of (views stateAt1) ''Browse'' = Some browseAt1
   \<and> (\<exists>w'. map_of (views (dispatchAll env0 stateAt1
                [AddData ''Browse'' newerPayload, SetSearchId ''Browse'' 5, AddData ''Browse'' stalePayload]))
              ''Browse'' = Some w'
          \<and> searchId (data browseAt1) \<le> searchId (data w'))"
proof -
  have h: "map_of (views stateAt1) ''Browse'' = Some browseAt1"
    by (simp add: stateAt1_def GENERAL_VIEW_ID_def)
  from searchId_non_decreasing [OF h] h show ?thesis by blast
qed

subsection \<open>Responses of an older search\<close>

text \<open>
  C3. A payload whose search id is strictly smaller than the one of the view it is
  addressed to changes nothing: \<open>addData\<close> returns the state it was given.
\<close>

theorem stale_response_dropped:
  "map_of (views st) v = Some view \<Longrightarrow> searchId_d d < searchId (data view) \<Longrightarrow>
   addData env st v d = st"
  by (simp add: addData_def addData_view_def update_triv)

theorem stale_response_dropped_witness:
  "map_of (views stateAt1) ''Browse'' = Some browseAt1
   \<and> searchId_d stalePayload < searchId (data browseAt1)
   \<and> addData env0 stateAt1 ''Browse'' stalePayload = stateAt1"
proof -
  have h1: "map_of (views stateAt1) ''Browse'' = Some browseAt1"
    by (simp add: stateAt1_def GENERAL_VIEW_ID_def)
  have h2: "searchId_d stalePayload < searchId (data browseAt1)"
    by (simp add: stalePayload_def browseAt1_def emptyData_def)
  from stale_response_dropped [OF h1 h2] h1 h2 show ?thesis by blast
qed

subsection \<open>Applying a payload twice\<close>

lemma map_overlay_twice: "m ++ ps ++ ps = m ++ ps"
  by (rule ext) (simp add: map_add_def split: option.splits)

lemma map_overlay_again:
  "((m ++ ps)(p \<mapsto> x) ++ ps)(p \<mapsto> x) = (m ++ ps)(p \<mapsto> (x::'b))"
  by (rule ext) (simp add: map_add_def split: option.splits)

lemma addBlocks_idem:
  "addGames n d (addPages d (addKeyset d (addTotal d
     (addGames n d (addPages d (addKeyset d (addTotal d vd))))))) =
   addGames n d (addPages d (addKeyset d (addTotal d vd)))"
  by (cases "total_d d"; cases "keyset_d d"; cases "pages_d d"; cases "page_d d"; cases "games_d d")
     (simp_all add: addGames_def addPages_def addKeyset_def addTotal_def writeGames_idem
        map_overlay_again map_overlay_twice)

lemma addData_view_idem: "addData_view n (addData_view n view d) d = addData_view n view d"
proof -
  consider "searchId (data view) > searchId_d d" | "searchId (data view) = searchId_d d"
    | "searchId (data view) < searchId_d d" by linarith
  then show ?thesis
  proof cases
    case 1
    then show ?thesis by (simp add: addData_view_def)
  next
    case 2
    then show ?thesis using addBlocks_idem [of n d "data view"]
      by (cases "total_d d") (simp_all add: addData_view_def searchId_add)
  next
    case 3
    then show ?thesis using addBlocks_idem [of n d "freshData (searchId_d d)"]
      by (cases "total_d d") (simp_all add: addData_view_def searchId_add freshData_def)
  qed
qed

text \<open>
  C4. \<open>addData\<close> is idempotent: for every state, view name and payload, applying the
  payload a second time gives the state that the first application gave.
\<close>

theorem addData_idempotent: "addData env (addData env st v d) v d = addData env st v d"
  by (cases "map_of (views st) v")
     (simp_all add: addData_def update_conv' addData_view_idem)

subsection \<open>What a payload leaves in the cache\<close>

lemma waitingPages_apply:
  "waitingPages i n ps j = (if i \<le> j \<and> j < i + n then Some WAITING else ps j)"
  by (induction n arbitrary: i ps) auto

lemma keysetPages_apply:
  "keysetPages ks i = (if i = 0 then Some RECEIVED else if i \<le> length ks then Some WAITING else None)"
  by (auto simp: keysetPages_def waitingPages_apply)

lemma pages_added:
  "pages (addGames n d (addPages d (addKeyset d (addTotal d vd)))) =
     (let base = (case keyset_d d of None \<Rightarrow> pages vd | Some ks \<Rightarrow> keysetPages ks)
                   ++ (case pages_d d of None \<Rightarrow> Map.empty | Some ps \<Rightarrow> ps)
      in case (page_d d, games_d d) of
           (Some p, Some gs) \<Rightarrow> if p = 0 \<and> gs = [] then base else base(p \<mapsto> RECEIVED)
         | _ \<Rightarrow> base)"
  by (cases "total_d d"; cases "keyset_d d"; cases "pages_d d"; cases "page_d d"; cases "games_d d")
     (simp_all add: addGames_def addPages_def addKeyset_def addTotal_def)

lemma games_added:
  "games (addGames n d (addPages d (addKeyset d (addTotal d vd)))) =
     (case (page_d d, games_d d) of
        (Some p, Some gs) \<Rightarrow> writeGames (n * p) 0 gs (games vd)
      | _ \<Rightarrow> games vd)"
  by (cases "total_d d"; cases "keyset_d d"; cases "pages_d d"; cases "page_d d"; cases "games_d d")
     (simp_all add: addGames_def addPages_def addKeyset_def addTotal_def)

lemma keyset_added:
  "keyset (addGames n d (addPages d (addKeyset d (addTotal d vd)))) =
     (case keyset_d d of None \<Rightarrow> keyset vd | Some ks \<Rightarrow> ks)"
  by (cases "total_d d"; cases "keyset_d d"; cases "pages_d d"; cases "page_d d"; cases "games_d d")
     (simp_all add: addGames_def addPages_def addKeyset_def addTotal_def)

lemma data_addData_view:
  "searchId (data view) \<le> searchId_d d \<Longrightarrow>
   data (addData_view n view d) =
     addGames n d (addPages d (addKeyset d (addTotal d
       (if searchId (data view) < searchId_d d then freshData (searchId_d d) else data view))))"
  by (cases "total_d d") (simp_all add: addData_view_def)

text \<open>
  C2. When the payload carries a search id strictly greater than the one of the view,
  \<open>addData\<close> gives the state it would give had the cache of the view first been replaced
  by \<open>{searchId: payload.searchId, games: {}, pages: {}, keyset: [], total: undefined}\<close>
  (with the fetch status \<open>REQUESTED\<close>); the games of the result are the games of the
  payload written into an empty record, and its page states are made of the keyset, the
  page states and the page number of the payload alone.
\<close>

theorem reset_on_supersede:
  assumes "map_of (views st) v = Some view"
    and "searchId (data view) < searchId_d d"
  shows "addData env st v d =
           addData env
             (st\<lparr>views := AList.update v
                    (view\<lparr>data := \<lparr>searchId = searchId_d d, games = [], total = None,
                                   pages = Map.empty, keyset = [], metaState = REQUESTED\<rparr>\<rparr>)
                    (views st)\<rparr>) v d
         \<and> (\<exists>view'. map_of (views (addData env st v d)) v = Some view'
               \<and> games (data view') =
                   (case (page_d d, games_d d) of
                      (Some p, Some gs) \<Rightarrow> writeGames (VIEW_PAGE_SIZE env * p) 0 gs []
                    | _ \<Rightarrow> [])
               \<and> pages (data view') =
                   (let base = (case keyset_d d of None \<Rightarrow> Map.empty | Some ks \<Rightarrow> keysetPages ks)
                                 ++ (case pages_d d of None \<Rightarrow> Map.empty | Some ps \<Rightarrow> ps)
                    in case (page_d d, games_d d) of
                         (Some p, Some gs) \<Rightarrow> if p = 0 \<and> gs = [] then base else base(p \<mapsto> RECEIVED)
                       | _ \<Rightarrow> base))"
proof -
  let ?fresh = "\<lparr>searchId = searchId_d d, games = [], total = None,
                 pages = Map.empty, keyset = [], metaState = REQUESTED\<rparr> :: 'a ResultsViewData"
  have "addData_view n view d = addData_view n (view\<lparr>data := ?fresh\<rparr>) d" for n
    using assms(2) by (cases "total_d d") (simp_all add: addData_view_def freshData_def)
  with assms(1) have "addData env st v d =
      addData env (st\<lparr>views := AList.update v (view\<lparr>data := ?fresh\<rparr>) (views st)\<rparr>) v d"
    by (simp add: addData_def update_conv')
  moreover from assms have "\<exists>view'. map_of (views (addData env st v d)) v = Some view'
               \<and> games (data view') =
                   (case (page_d d, games_d d) of
                      (Some p, Some gs) \<Rightarrow> writeGames (VIEW_PAGE_SIZE env * p) 0 gs []
                    | _ \<Rightarrow> [])
               \<and> pages (data view') =
                   (let base = (case keyset_d d of None \<Rightarrow> Map.empty | Some ks \<Rightarrow> keysetPages ks)
                                 ++ (case pages_d d of None \<Rightarrow> Map.empty | Some ps \<Rightarrow> ps)
                    in case (page_d d, games_d d) of
                         (Some p, Some gs) \<Rightarrow> if p = 0 \<and> gs = [] then base else base(p \<mapsto> RECEIVED)
                       | _ \<Rightarrow> base)"
    by (simp add: addData_lookup data_addData_view pages_added games_added freshData_def
          split: option.split)
  ultimately show ?thesis by blast
qed

theorem reset_on_supersede_witness:
  "map_of (views stateLoaded) ''Browse'' = Some browseLoaded
   \<and> searchId (data browseLoaded) < searchId_d newerPayload
   \<and> (\<exists>view'. map_of (views (addData env0 stateLoaded ''Browse'' newerPayload)) ''Browse'' = Some view'
         \<and> games (data view') = [(0, game ''g1'')]
         \<and> pages (data view') = [0 \<mapsto> RECEIVED])"
proof -
  have h1: "map_of (views stateLoaded) ''Browse'' = Some browseLoaded"
    by (simp add: stateLoaded_def GENERAL_VIEW_ID_def)
  have h2: "searchId (data browseLoaded) < searchId_d newerPayload"
    by (simp add: browseLoaded_def newerPayload_def)
  have g: "(case (page_d newerPayload, games_d newerPayload) of
              (Some p, Some gs) \<Rightarrow> writeGames (VIEW_PAGE_SIZE env0 * p) 0 gs []
            | _ \<Rightarrow> []) = [(0, game ''g1'')]"
    by (simp add: newerPayload_def env0_def)
  have p: "(let base = (case keyset_d newerPayload of None \<Rightarrow> Map.empty | Some ks \<Rightarrow> keysetPages ks)
                         ++ (case pages_d newerPayload of None \<Rightarrow> Map.empty | Some ps \<Rightarrow> ps)
            in case (page_d newerPayload, games_d newerPayload) of
                 (Some p, Some gs) \<Rightarrow> if p = 0 \<and> gs = [] then base else base(p \<mapsto> RECEIVED)
               | _ \<Rightarrow> base) = [0 \<mapsto> RECEIVED]"
    by (simp add: newerPayload_def)
  from reset_on_supersede [OF h1 h2, of env0, THEN conjunct2]
  have "\<exists>view'. map_of (views (addData env0 stateLoaded ''Browse'' newerPayload)) ''Browse'' = Some view'
         \<and> games (data view') = [(0, game ''g1'')]
         \<and> pages (data view') = [0 \<mapsto> RECEIVED]"
    unfolding g p .
  with h1 h2 show ?thesis by blast
qed

text \<open>
  C5, as stated, fails: the payload
  \<open>{searchId: 1, keyset: ['c1', 'c2'], total: 3, pages: {1: REQUESTED}}\<close> has the search
  id of the view and carries a keyset of length 2, and page 1 is \<open>REQUESTED\<close> afterwards,
  not \<open>WAITING\<close>.
\<close>

theorem keyset_pages_counterexample:
  "map_of (views stateAt1) ''Browse'' = Some browseAt1
   \<and> searchId (data browseAt1) = searchId_d keysetAndPages
   \<and> keyset_d keysetAndPages = Some [''c1'', ''c2'']
   \<and> pageStateOf (addData env0 stateAt1 ''Browse'' keysetAndPages) ''Browse'' 1 = Some REQUESTED"
  by (simp add: stateAt1_def browseAt1_def keysetAndPages_def pageStateOf_def addData_def
        addData_view_def addGames_def addPages_def addKeyset_def addTotal_def GENERAL_VIEW_ID_def
        emptyData_def)

text \<open>
  C5, amended. When the payload has the search id of the view and carries a keyset
  \<open>ks\<close>, \<open>addData\<close> replaces the keyset of the cache by \<open>ks\<close> and rebuilds the page states
  from the table that has exactly the pages 0 to \<open>length ks\<close>, page 0 \<open>RECEIVED\<close> and every
  other page \<open>WAITING\<close>; nothing of the old page states is kept. The page states that the
  payload carries are then merged over that table, and the page of the payload, if it
  carries games, is marked \<open>RECEIVED\<close>. A payload that carries neither leaves the table
  as it is.
\<close>

theorem keyset_rebuilds_pages:
  assumes "map_of (views st) v = Some view"
    and "searchId (data view) = searchId_d d"
    and "keyset_d d = Some ks"
  shows "\<exists>view'. map_of (views (addData env st v d)) v = Some view'
           \<and> keyset (data view') = ks
           \<and> pages (data view') =
               (let base = keysetPages ks ++ (case pages_d d of None \<Rightarrow> Map.empty | Some ps \<Rightarrow> ps)
                in case (page_d d, games_d d) of
                     (Some p, Some gs) \<Rightarrow> if p = 0 \<and> gs = [] then base else base(p \<mapsto> RECEIVED)
                   | _ \<Rightarrow> base)
           \<and> (\<forall>i. keysetPages ks i =
                 (if i = 0 then Some RECEIVED else if i \<le> length ks then Some WAITING else None))"
  using assms
  by (simp add: addData_lookup data_addData_view pages_added keyset_added keysetPages_apply)

theorem keyset_rebuilds_pages_witness:
  "map_of (views stateAt1) ''Browse'' = Some browseAt1
   \<and> searchId (data browseAt1) = searchId_d keysetPayload
   \<and> keyset_d keysetPayload = Some [''c1'', ''c2'']
   \<and> (\<exists>view'. map_of (views (addData env0 stateAt1 ''Browse'' keysetPayload)) ''Browse'' = Some view'
         \<and> keyset (data view') = [''c1'', ''c2'']
         \<and> pages (data view') = [0 \<mapsto> RECEIVED, 1 \<mapsto> WAITING, 2 \<mapsto> WAITING])"
proof -
  have h1: "map_of (views stateAt1) ''Browse'' = Some browseAt1"
    by (simp add: stateAt1_def GENERAL_VIEW_ID_def)
  have h2: "searchId (data browseAt1) = searchId_d keysetPayload"
    by (simp add: browseAt1_def keysetPayload_def emptyData_def)
  have h3: "keyset_d keysetPayload = Some [''c1'', ''c2'']"
    by (simp add: keysetPayload_def)
  have tab: "keysetPayload_pages = [0 \<mapsto> RECEIVED, 1 \<mapsto> WAITING, 2 \<mapsto> WAITING]"
    if "keysetPayload_pages = keysetPages [''c1'', ''c2'']" for keysetPayload_pages
    unfolding that by (rule ext) (simp add: keysetPages_apply)
  from keyset_rebuilds_pages [OF h1 h2 h3, of env0] obtain view'
    where "map_of (views (addData env0 stateAt1 ''Browse'' keysetPayload)) ''Browse'' = Some view'"
      and "keyset (data view') = [''c1'', ''c2'']"
      and "pages (data view') = keysetPages [''c1'', ''c2'']"
    by (auto simp: keysetPayload_def)
  with tab h1 h2 h3 show ?thesis by blast
qed

subsection \<open>Requesting a range of pages\<close>

lemma requestRange_loop_apply:
  "requestRange_loop truthy ks i e ps j =
     (if i \<le> int j \<and> int j < e \<and> 0 < j \<and> ps j = Some WAITING \<and> keysetAt truthy ks (int j - 1)
      then Some REQUESTED else ps j)"
proof (induction truthy ks i e ps rule: requestRange_loop.induct)
  case (1 truthy ks i e ps)
  show ?case
  proof (cases "i < e")
    case True
    have eq: "nat i = j \<longleftrightarrow> i = int j" if "0 < i" using that by auto
    show ?thesis
      apply (subst requestRange_loop.simps)
      apply (simp only: True if_True)
      apply (subst 1 [OF True])
      using True eq apply (auto split: if_splits)
      done
  next
    case False
    then show ?thesis by (subst requestRange_loop.simps) auto
  qed
qed

lemma requestRange_loop_changed:
  assumes "requestRange_loop truthy ks a b ps i \<noteq> ps i"
  shows "0 < i \<and> ps i = Some WAITING \<and> i - 1 < length ks \<and> truthy (ks ! (i - 1))
           \<and> requestRange_loop truthy ks a b ps i = Some REQUESTED"
proof -
  from assms have c: "0 < i" "ps i = Some WAITING" "keysetAt truthy ks (int i - 1)"
    "requestRange_loop truthy ks a b ps i = Some REQUESTED"
    unfolding requestRange_loop_apply by (simp_all split: if_splits)
  from c(1) have "nat (int i - 1) = i - 1" by simp
  with c(3) have "i - 1 < length ks \<and> truthy (ks ! (i - 1))"
    unfolding keysetAt_def by simp
  with c show ?thesis by blast
qed

lemma requestRange_stale:
  assumes "map_of (views st) (view_rr p) = Some view" "searchId (data view) \<noteq> searchId_rr p"
  shows "requestRange truthy st p = st"
  using assms by (simp add: requestRange_def)

lemma requestRange_lookup:
  assumes "map_of (views st) (view_rr p) = Some view" "searchId (data view) = searchId_rr p"
  shows "map_of (views (requestRange truthy st p)) (view_rr p) =
    Some (view\<lparr>data := (data view)\<lparr>pages := requestRange_loop truthy (keyset (data view)) (start_rr p)
               (start_rr p + count_rr p) (pages (data view))\<rparr>\<rparr>)"
  using assms by (simp add: requestRange_def update_conv')

text \<open>
  C6. \<open>requestRange\<close> changes the state of a page \<open>i\<close> of the view only if \<open>i > 0\<close>, the page
  was \<open>WAITING\<close> and \<open>keyset[i - 1]\<close> is set, and then the page becomes \<open>REQUESTED\<close>;
  when the search id of the caller is not the one of the view, \<open>requestRange\<close> returns the
  state it was given.
\<close>

theorem requestRange_page_dependency:
  assumes "map_of (views st) (view_rr p) = Some view"
  shows "\<exists>view'. map_of (views (requestRange truthy st p)) (view_rr p) = Some view'
           \<and> (\<forall>i. pages (data view') i \<noteq> pages (data view) i \<longrightarrow>
                  0 < i \<and> pages (data view) i = Some WAITING
                  \<and> i - 1 < length (keyset (data view)) \<and> truthy (keyset (data view) ! (i - 1))
                  \<and> pages (data view') i = Some REQUESTED)
           \<and> (searchId (data view) \<noteq> searchId_rr p \<longrightarrow> requestRange truthy st p = st)"
proof (cases "searchId (data view) = searchId_rr p")
  case False
  from requestRange_stale [OF assms False] have same: "requestRange truthy st p = st" .
  with assms have "map_of (views (requestRange truthy st p)) (view_rr p) = Some view"
    by simp
  with same show ?thesis by blast
next
  case True
  define ps' where "ps' = requestRange_loop truthy (keyset (data view)) (start_rr p)
               (start_rr p + count_rr p) (pages (data view))"
  define view' where "view' = view\<lparr>data := (data view)\<lparr>pages := ps'\<rparr>\<rparr>"
  have look: "map_of (views (requestRange truthy st p)) (view_rr p) = Some view'"
    unfolding view'_def ps'_def by (rule requestRange_lookup [OF assms True])
  have pages': "pages (data view') = ps'" by (simp add: view'_def)
  have "0 < i \<and> pages (data view) i = Some WAITING
            \<and> i - 1 < length (keyset (data view)) \<and> truthy (keyset (data view) ! (i - 1))
            \<and> pages (data view') i = Some REQUESTED"
    if "pages (data view') i \<noteq> pages (data view) i" for i
    using that unfolding pages' ps'_def by (rule requestRange_loop_changed)
  with look True show ?thesis by blast
qed

theorem requestRange_page_dependency_witness:
  "map_of (views stateKeyed) (view_rr rangeRequest) = Some browseKeyed
   \<and> (\<exists>view'. map_of (views (requestRange truthyString stateKeyed rangeRequest)) (view_rr rangeRequest) = Some view'
         \<and> pages (data view') 1 \<noteq> pages (data browseKeyed) 1
         \<and> pages (data browseKeyed) 1 = Some WAITING
         \<and> truthyString (keyset (data browseKeyed) ! 0)
         \<and> pages (data view') 1 = Some REQUESTED)
   \<and> map_of (views stateKeyed) (view_rr staleRangeRequest) = Some browseKeyed
   \<and> searchId (data browseKeyed) \<noteq> searchId_rr staleRangeRequest
   \<and> requestRange truthyString stateKeyed staleRangeRequest = stateKeyed"
proof -
  have h1: "map_of (views stateKeyed) (view_rr rangeRequest) = Some browseKeyed"
    by (simp add: stateKeyed_def rangeRequest_def GENERAL_VIEW_ID_def)
  have h2: "map_of (views stateKeyed) (view_rr staleRangeRequest) = Some browseKeyed"
    by (simp add: stateKeyed_def staleRangeRequest_def GENERAL_VIEW_ID_def)
  have h3: "searchId (data browseKeyed) \<noteq> searchId_rr staleRangeRequest"
    by (simp add: browseKeyed_def staleRangeRequest_def)
  have same: "searchId (data browseKeyed) = searchId_rr rangeRequest"
    by (simp add: browseKeyed_def rangeRequest_def)
  from requestRange_page_dependency [OF h1, of truthyString] obtain view'
    where v: "map_of (views (requestRange truthyString stateKeyed rangeRequest)) (view_rr rangeRequest) = Some view'
           \<and> (\<forall>i. pages (data view') i \<noteq> pages (data browseKeyed) i \<longrightarrow>
                  0 < i \<and> pages (data browseKeyed) i = Some WAITING
                  \<and> i - 1 < length (keyset (data browseKeyed))
                  \<and> truthyString (keyset (data browseKeyed) ! (i - 1))
                  \<and> pages (data view') i = Some REQUESTED)
           \<and> (searchId (data browseKeyed) \<noteq> searchId_rr rangeRequest \<longrightarrow>
                requestRange truthyString stateKeyed rangeRequest = stateKeyed)" ..
  note look = v [THEN conjunct1]
  note dep = v [THEN conjunct2, THEN conjunct1, rule_format]
  have "Some view' = Some (browseKeyed\<lparr>data := (data browseKeyed)\<lparr>pages :=
          requestRange_loop truthyString (keyset (data browseKeyed)) (start_rr rangeRequest)
            (start_rr rangeRequest + count_rr rangeRequest) (pages (data browseKeyed))\<rparr>\<rparr>)"
    unfolding look [symmetric] by (rule requestRange_lookup [OF h1 same])
  then have "pages (data view') 1 =
          requestRange_loop truthyString (keyset (data browseKeyed)) (start_rr rangeRequest)
            (start_rr rangeRequest + count_rr rangeRequest) (pages (data browseKeyed)) 1"
    by simp
  also have "\<dots> = Some REQUESTED"
    unfolding requestRange_loop_apply
    by (simp add: browseKeyed_def rangeRequest_def keysetAt_def truthyString_def)
  finally have changed: "pages (data view') 1 \<noteq> pages (data browseKeyed) 1"
    by (simp add: browseKeyed_def)
  have one: "(1::nat) - 1 = 0" by simp
  from dep [OF changed] have "pages (data browseKeyed) 1 = Some WAITING
      \<and> truthyString (keyset (data browseKeyed) ! 0) \<and> pages (data view') 1 = Some REQUESTED"
    unfolding one by (elim conjE) (intro conjI)
  with look changed have first:
    "\<exists>view'. map_of (views (requestRange truthyString stateKeyed rangeRequest)) (view_rr rangeRequest) = Some view'
         \<and> pages (data view') 1 \<noteq> pages (data browseKeyed) 1
         \<and> pages (data browseKeyed) 1 = Some WAITING
         \<and> truthyString (keyset (data browseKeyed) ! 0)
         \<and> pages (data view') 1 = Some REQUESTED"
    by (intro exI [of _ view']) (elim conjE, intro conjI)
  from requestRange_page_dependency [OF h2, of truthyString] obtain view2
    where v2: "map_of (views (requestRange truthyString stateKeyed staleRangeRequest)) (view_rr staleRangeRequest) = Some view2
           \<and> (\<forall>i. pages (data view2) i \<noteq> pages (data browseKeyed) i \<longrightarrow>
                  0 < i \<and> pages (data browseKeyed) i = Some WAITING
                  \<and> i - 1 < length (keyset (data browseKeyed))
                  \<and> truthyString (keyset (data browseKeyed) ! (i - 1))
                  \<and> pages (data view2) i = Some REQUESTED)
           \<and> (searchId (data browseKeyed) \<noteq> searchId_rr staleRangeRequest \<longrightarrow>
                requestRange truthyString stateKeyed staleRangeRequest = stateKeyed)" ..
  from v2 [THEN conjunct2, THEN conjunct2, rule_format, OF h3]
  have stale: "requestRange truthyString stateKeyed staleRangeRequest = stateKeyed" .
  from h1 first h2 h3 stale show ?thesis by (intro conjI)
qed

subsection \<open>The registry of views\<close>

lemma single_entry:
  assumes "distinct (map fst al)" and "fst ` set al = {k}" and "map_of al k = Some x"
  shows "al = [(k, x)]"
proof (cases al)
  case Nil
  with assms(2) show ?thesis by simp
next
  case (Cons e rest)
  with assms(2) have e: "fst e = k" by auto
  have "rest = []"
  proof (rule ccontr)
    assume "rest \<noteq> []"
    then obtain e' where e': "e' \<in> set rest" by (cases rest) auto
    with Cons assms(2) have "fst e' = k" by auto
    with e' have "k \<in> set (map fst rest)" by force
    with Cons assms(1) e show False by simp
  qed
  with Cons e assms(3) show ?thesis by (cases e) simp
qed

lemma Browse_not_general: "''Browse'' \<noteq> GENERAL_VIEW_ID"
  by (simp add: GENERAL_VIEW_ID_def)

text \<open>
  C9. When only the general view is left once \<open>deleteView\<close> has removed the view it was
  given, the registry afterwards is the general view, unchanged, followed by a view
  named \<open>Browse\<close> with the empty cache: search id 0, no games, no pages, an empty keyset
  and no total.
\<close>

theorem deleteView_last_view:
  assumes "map_of (views st) GENERAL_VIEW_ID = Some g"
    and "distinct (map fst (views st))"
    and "fst ` set (views st) - {v} = {GENERAL_VIEW_ID}"
  shows "\<exists>b. views (deleteView env st v) = [(GENERAL_VIEW_ID, g), (''Browse'', b)]
           \<and> b = newView env None ''Browse''
           \<and> id_v b = ''Browse''
           \<and> data b = \<lparr>searchId = 0, games = [], total = None, pages = Map.empty, keyset = [],
                        metaState = WAITING\<rparr>"
proof -
  from assms(3) have ne: "GENERAL_VIEW_ID \<noteq> v" by blast
  define vs1 where "vs1 = AList.delete v (views st)"
  have "(case map_of (views st) v of None \<Rightarrow> views st | Some w \<Rightarrow> AList.delete v (views st)) = vs1"
  proof (cases "map_of (views st) v")
    case None
    then have "v \<notin> fst ` set (views st)" by (simp add: map_of_eq_None_iff)
    then show ?thesis by (simp add: None vs1_def)
  next
    case (Some w)
    then show ?thesis by (simp add: vs1_def)
  qed
  moreover have "vs1 = [(GENERAL_VIEW_ID, g)]"
  proof (rule single_entry)
    show "distinct (map fst vs1)"
      unfolding vs1_def using assms(2) by (rule distinct_delete)
    show "fst ` set vs1 = {GENERAL_VIEW_ID}"
      using assms(3) by (simp add: vs1_def delete_keys flip: set_map)
    show "map_of vs1 GENERAL_VIEW_ID = Some g"
      using assms(1) ne by (simp add: vs1_def)
  qed
  ultimately have "views (deleteView env st v) =
      [(GENERAL_VIEW_ID, g), (''Browse'', newView env None ''Browse'')]"
    using Browse_not_general by (simp add: deleteView_def)
  then show ?thesis by (simp add: newView_def emptyData_def)
qed

theorem deleteView_last_view_witness:
  "map_of (views stateAt1) GENERAL_VIEW_ID = Some (newView env0 None GENERAL_VIEW_ID)
   \<and> distinct (map fst (views stateAt1))
   \<and> fst ` set (views stateAt1) - {''Browse''} = {GENERAL_VIEW_ID}
   \<and> (\<exists>b. views (deleteView env0 stateAt1 ''Browse'') =
             [(GENERAL_VIEW_ID, newView env0 None GENERAL_VIEW_ID), (''Browse'', b)]
          \<and> id_v b = ''Browse''
          \<and> data b = \<lparr>searchId = 0, games = [], total = None, pages = Map.empty, keyset = [],
                       metaState = WAITING\<rparr>)"
proof -
  have h1: "map_of (views stateAt1) GENERAL_VIEW_ID = Some (newView env0 None GENERAL_VIEW_ID)"
    by (simp add: stateAt1_def)
  have h2: "distinct (map fst (views stateAt1))"
    by (simp add: stateAt1_def GENERAL_VIEW_ID_def)
  have h3: "fst ` set (views stateAt1) - {''Browse''} = {GENERAL_VIEW_ID}"
    by (auto simp: stateAt1_def GENERAL_VIEW_ID_def)
  from deleteView_last_view [OF h1 h2 h3, of env0] h1 h2 h3 show ?thesis by blast
qed

lemma length_delete_present:
  "distinct (map fst al) \<Longrightarrow> map_of al k = Some x \<Longrightarrow> length (AList.delete k al) = length al - 1"
proof (induction al)
  case Nil
  then show ?case by simp
next
  case (Cons e al)
  show ?case
  proof (cases "fst e = k")
    case True
    with Cons.prems(1) have "k \<notin> fst ` set al" by auto
    with True show ?thesis by (cases e) (simp add: delete_id)
  next
    case False
    with Cons have "length (AList.delete k al) = length al - 1"
      by (cases e) (auto split: if_splits)
    moreover from False Cons.prems(2) have "al \<noteq> []" by (cases e) auto
    ultimately show ?thesis using False by (cases e) (auto simp: Suc_diff_le Suc_leI)
  qed
qed

lemma length_update_present:
  "map_of al k = Some x \<Longrightarrow> length (AList.update k v al) = length al"
  by (induction al) (auto split: if_splits)

lemma renameView_lookup:
  "map_of (views st) old_p = Some w \<Longrightarrow>
   map_of (views (renameView st old_p new_p)) u =
     (if u = old_p then None else if u = new_p then Some (w\<lparr>id_v := new_p\<rparr>) else map_of (views st) u)"
  by (simp add: renameView_def delete_conv' update_conv')

text \<open>
  C10. When \<open>old\<close> names a view and \<open>new\<close> names another view, \<open>renameView\<close> does not
  refuse: afterwards \<open>new\<close> names the view that \<open>old\<close> named, with its cache and with
  \<open>new\<close> as its id, \<open>old\<close> names nothing, and the registry has one entry less. The view
  that \<open>new\<close> named before is gone.
\<close>

theorem renameView_overwrites:
  assumes "map_of (views st) old_p = Some w"
    and "map_of (views st) new_p = Some w2"
    and "old_p \<noteq> new_p"
    and "distinct (map fst (views st))"
  shows "map_of (views (renameView st old_p new_p)) new_p = Some (w\<lparr>id_v := new_p\<rparr>)
         \<and> data (w\<lparr>id_v := new_p\<rparr>) = data w
         \<and> map_of (views (renameView st old_p new_p)) old_p = None
         \<and> length (views (renameView st old_p new_p)) = length (views st) - 1"
proof -
  let ?upd = "AList.update new_p (w\<lparr>id_v := new_p\<rparr>) (views st)"
  have "distinct (map fst ?upd)" using assms(4) by (rule distinct_update)
  moreover have "map_of ?upd old_p = Some w" using assms(1,3) by (simp add: update_conv')
  ultimately have "length (AList.delete old_p ?upd) = length ?upd - 1"
    by (rule length_delete_present)
  with assms(1,2) have "length (views (renameView st old_p new_p)) = length (views st) - 1"
    by (simp add: renameView_def length_update_present)
  with assms(1,3) show ?thesis by (simp add: renameView_lookup)
qed

theorem renameView_overwrites_witness:
  "map_of (views stateTwoViews) ''Browse'' = Some browseLoaded
   \<and> map_of (views stateTwoViews) ''Arcade'' = Some arcadeView
   \<and> ''Browse'' \<noteq> ''Arcade''
   \<and> distinct (map fst (views stateTwoViews))
   \<and> map_of (views (renameView stateTwoViews ''Browse'' ''Arcade'')) ''Arcade''
       = Some (browseLoaded\<lparr>id_v := ''Arcade''\<rparr>)
   \<and> map_of (views (renameView stateTwoViews ''Browse'' ''Arcade'')) ''Browse'' = None
   \<and> length (views (renameView stateTwoViews ''Browse'' ''Arcade'')) = 2"
proof -
  have h1: "map_of (views stateTwoViews) ''Browse'' = Some browseLoaded"
    by (simp add: stateTwoViews_def GENERAL_VIEW_ID_def)
  have h2: "map_of (views stateTwoViews) ''Arcade'' = Some arcadeView"
    by (simp add: stateTwoViews_def GENERAL_VIEW_ID_def)
  have h3: "''Browse'' \<noteq> ''Arcade''" by simp
  have h4: "distinct (map fst (views stateTwoViews))"
    by (simp add: stateTwoViews_def GENERAL_VIEW_ID_def)
  have len: "length (views stateTwoViews) - 1 = 2"
    by (simp add: stateTwoViews_def)
  from renameView_overwrites [OF h1 h2 h3 h4] h1 h2 h3 h4 show ?thesis
    unfolding len by blast
qed

subsection \<open>The general view\<close>

lemma ensureView_keeps:
  "map_of vs k = Some g \<Longrightarrow> map_of (ensureView env lib name vs) k = Some g"
  by (cases "map_of vs name") (auto simp: ensureView_def update_conv')

lemma fold_ensureView_keeps:
  "map_of vs k = Some g \<Longrightarrow> map_of (fold (\<lambda>name. ensureView env (f name) name) names vs) k = Some g"
  by (induction names arbitrary: vs) (simp_all add: ensureView_keeps)

lemma applyStoredView_keeps_id:
  assumes "map_of vs k = Some g"
  shows "\<exists>g'. map_of (applyStoredView env b sv vs) k = Some g' \<and> id_v g' = id_v g"
proof (cases "map_of vs (view_sv sv)")
  case None
  with assms show ?thesis by (simp add: applyStoredView_def)
next
  case (Some w)
  show ?thesis
  proof (cases "view_sv sv = k")
    case True
    with Some assms show ?thesis by (simp add: applyStoredView_def update_conv')
  next
    case False
    with Some assms show ?thesis by (simp add: applyStoredView_def update_conv')
  qed
qed

lemma fold_applyStoredView_keeps_id:
  "map_of vs k = Some g \<Longrightarrow>
   \<exists>g'. map_of (fold (applyStoredView env b) svs vs) k = Some g' \<and> id_v g' = id_v g"
proof (induction svs arbitrary: vs g)
  case Nil
  then show ?case by simp
next
  case (Cons sv svs)
  from applyStoredView_keeps_id [OF Cons.prems, of env b sv]
  obtain g1 where g1: "map_of (applyStoredView env b sv vs) k = Some g1" "id_v g1 = id_v g"
    by blast
  from Cons.IH [OF g1(1)] g1(2) show ?case by simp
qed

lemma addViews_keeps_id:
  assumes "map_of (views st) k = Some g"
  shows "\<exists>g'. map_of (views (addViews env st payload)) k = Some g' \<and> id_v g' = id_v g"
proof -
  let ?vs1 = "fold (\<lambda>name. ensureView env None name) (views_cv payload) (views st)"
  from assms have one: "map_of ?vs1 k = Some g" by (rule fold_ensureView_keeps)
  show ?thesis
  proof (cases "storedViews payload")
    case None
    with one show ?thesis by (simp add: addViews_def)
  next
    case (Some svs)
    with fold_applyStoredView_keeps_id [OF one, of env False svs] show ?thesis
      by (simp add: addViews_def)
  qed
qed

lemma createViews_keeps_general:
  assumes "map_of (views st) GENERAL_VIEW_ID = Some g"
  shows "\<exists>g'. map_of (views (createViews env st payload)) GENERAL_VIEW_ID = Some g' \<and> id_v g' = id_v g"
proof -
  let ?vs1 = "fold (\<lambda>name. ensureView env (if areLibraries payload then Some name else None) name)
                (views_cv payload) [(GENERAL_VIEW_ID, g)]"
  have "map_of [(GENERAL_VIEW_ID, g)] GENERAL_VIEW_ID = Some g" by simp
  then have one: "map_of ?vs1 GENERAL_VIEW_ID = Some g" by (rule fold_ensureView_keeps)
  show ?thesis
  proof (cases "storedViews payload")
    case None
    with one assms show ?thesis by (simp add: createViews_def)
  next
    case (Some svs)
    with fold_applyStoredView_keeps_id [OF one, of env True svs] assms show ?thesis
      by (simp add: createViews_def)
  qed
qed

lemma deleteView_keeps_others:
  "k \<noteq> v \<Longrightarrow> k \<noteq> ''Browse'' \<Longrightarrow> map_of (views (deleteView env st v)) k = map_of (views st) k"
  by (cases "map_of (views st) v") (simp_all add: deleteView_def Let_def update_conv')

lemma renameView_keeps_others:
  "k \<noteq> old_p \<Longrightarrow> k \<noteq> new_p \<Longrightarrow> map_of (views (renameView st old_p new_p)) k = map_of (views st) k"
  by (cases "map_of (views st) old_p") (simp_all add: renameView_def delete_conv' update_conv')

lemma duplicateView_keeps:
  "map_of (views st) k = Some g \<Longrightarrow> map_of (views (duplicateView st oldView v)) k = Some g"
  by (cases "map_of (views st) oldView"; cases "map_of (views st) v")
     (auto simp: duplicateView_def update_conv')

lemma renameView_keeps_general:
  assumes "map_of (views st) GENERAL_VIEW_ID = Some g" and "id_v g = GENERAL_VIEW_ID"
    and "old_p \<noteq> GENERAL_VIEW_ID"
  shows "\<exists>g'. map_of (views (renameView st old_p new_p)) GENERAL_VIEW_ID = Some g'
              \<and> id_v g' = GENERAL_VIEW_ID"
proof (cases "map_of (views st) old_p")
  case None
  with assms(1,2) show ?thesis by (simp add: renameView_def)
next
  case (Some w)
  from assms(3) have ne: "GENERAL_VIEW_ID \<noteq> old_p" by blast
  show ?thesis
  proof (cases "GENERAL_VIEW_ID = new_p")
    case True
    with ne show ?thesis by (simp add: renameView_lookup [OF Some])
  next
    case False
    with ne assms(1,2) show ?thesis by (simp add: renameView_lookup [OF Some])
  qed
qed

lemma registryStep_keeps_general:
  assumes "map_of (views st) GENERAL_VIEW_ID = Some g" and "id_v g = GENERAL_VIEW_ID"
    and "\<not> aimedAtGeneral a"
  shows "\<exists>g'. map_of (views (registryStep env st a)) GENERAL_VIEW_ID = Some g'
              \<and> id_v g' = GENERAL_VIEW_ID"
proof (cases a)
  case (AddViews payload)
  with addViews_keeps_id [OF assms(1), of env payload] assms(2) show ?thesis by simp
next
  case (CreateViews payload)
  with createViews_keeps_general [OF assms(1), of env payload] assms(2) show ?thesis by simp
next
  case (DeleteView v)
  with assms Browse_not_general show ?thesis by (simp add: deleteView_keeps_others)
next
  case (RenameView old_p new_p)
  with assms(3) have "old_p \<noteq> GENERAL_VIEW_ID" by simp
  from renameView_keeps_general [OF assms(1,2) this] RenameView show ?thesis by simp
next
  case (DuplicateView oldView v)
  with assms show ?thesis by (simp add: duplicateView_keeps)
qed

text \<open>
  The reducers that keep the general view. A registry whose key \<open>GENERAL_VIEW_ID\<close> holds a
  view with that id still holds one there after any list of \<open>addViews\<close>, \<open>createViews\<close>,
  \<open>deleteView\<close>, \<open>renameView\<close> and \<open>duplicateView\<close> actions, as long as no \<open>deleteView\<close>
  is given the id of the general view and no \<open>renameView\<close> is given it as the name of the
  view to rename. (A \<open>renameView\<close> onto that id puts the renamed view under the key, with
  the key as its id.)
\<close>

lemma registryRun_keeps_general:
  assumes "map_of (views st) GENERAL_VIEW_ID = Some g" and "id_v g = GENERAL_VIEW_ID"
    and "\<forall>a \<in> set acts. \<not> aimedAtGeneral a"
  shows "\<exists>g'. map_of (views (registryRun env st acts)) GENERAL_VIEW_ID = Some g'
              \<and> id_v g' = GENERAL_VIEW_ID"
  using assms
proof (induction acts arbitrary: st g)
  case Nil
  then show ?case by (simp add: registryRun_def)
next
  case (Cons a acts)
  from Cons.prems(3) have a: "\<not> aimedAtGeneral a" and rest: "\<forall>a \<in> set acts. \<not> aimedAtGeneral a"
    by simp_all
  from registryStep_keeps_general [OF Cons.prems(1,2) a, of env]
  obtain g1 where g1: "map_of (views (registryStep env st a)) GENERAL_VIEW_ID = Some g1"
    and id1: "id_v g1 = GENERAL_VIEW_ID" by blast
  from Cons.IH [OF g1 id1 rest] show ?case by (simp add: registryRun_def)
qed

lemma registryRun_keeps_general_example:
  "\<exists>g'. map_of (views (registryRun env0 stateTwoViews
            [DeleteView ''Arcade'', RenameView ''Browse'' ''Games'',
             CreateViews \<lparr>views_cv = [''Browse'', GENERAL_VIEW_ID], storedViews = Some [storedGeneral],
                          areLibraries = False\<rparr>,
             DuplicateView GENERAL_VIEW_ID ''Copy'', RenameView ''Copy'' GENERAL_VIEW_ID,
             DeleteView ''Browse'']))
          GENERAL_VIEW_ID = Some g'
       \<and> id_v g' = GENERAL_VIEW_ID"
proof -
  have h1: "map_of (views stateTwoViews) GENERAL_VIEW_ID = Some (newView env0 None GENERAL_VIEW_ID)"
    by (simp add: stateTwoViews_def)
  have h2: "id_v (newView env0 None GENERAL_VIEW_ID :: (string, unit, unit) ResultsView) = GENERAL_VIEW_ID"
    by (simp add: newView_def)
  have h3: "\<forall>a \<in> set [DeleteView ''Arcade'', RenameView ''Browse'' ''Games'',
                   CreateViews \<lparr>views_cv = [''Browse'', GENERAL_VIEW_ID], storedViews = Some [storedGeneral],
                                areLibraries = False\<rparr>,
                   DuplicateView GENERAL_VIEW_ID ''Copy'', RenameView ''Copy'' GENERAL_VIEW_ID,
                   DeleteView ''Browse''].
        \<not> aimedAtGeneral (a :: unit RegistryAction)"
    by (simp add: GENERAL_VIEW_ID_def)
  from registryRun_keeps_general [OF h1 h2 h3, of env0] show ?thesis .
qed

text \<open>
  C8. The claim is that the general view always exists: no registry operation, \<open>deleteView\<close>
  applied to the id of the general view included, removes it from the registry. The
  reducer \<open>deleteView\<close> does not keep to that. It has no test for \<open>GENERAL_VIEW_ID\<close>: on the
  registry of the general view and the view \<open>Browse\<close> at search id 1, given the id of the
  general view, it deletes the general view. The registry then has one key, so the
  branch that the source comments \<open>If we have no more browse views, add Browse\<close> runs
  although \<open>Browse\<close> is there, and puts a new view at search id 0 in its place: the
  registry that is left is that new \<open>Browse\<close> alone. \<open>renameView\<close> given the id of the
  general view as the name to rename removes the general view as well. On the same
  registry \<open>createViews\<close>, which the source comments \<open>Clear existing views except general\<close>,
  keeps the general view as it is.
\<close>

theorem deleteView_removes_general_view:
  "views stateAt1 = [(GENERAL_VIEW_ID, newView env0 None GENERAL_VIEW_ID), (''Browse'', browseAt1)]
   \<and> searchId (data browseAt1) = 1
   \<and> views (deleteView env0 stateAt1 GENERAL_VIEW_ID) = [(''Browse'', newView env0 None ''Browse'')]
   \<and> map_of (views (deleteView env0 stateAt1 GENERAL_VIEW_ID)) GENERAL_VIEW_ID = None
   \<and> searchId (data (newView env0 None ''Browse'' :: (string, unit, unit) ResultsView)) = 0
   \<and> map_of (views (renameView stateAt1 GENERAL_VIEW_ID ''Home'')) GENERAL_VIEW_ID = None
   \<and> map_of (views (createViews env0 stateAt1
                      \<lparr>views_cv = [''Browse''], storedViews = None, areLibraries = False\<rparr>))
        GENERAL_VIEW_ID = Some (newView env0 None GENERAL_VIEW_ID)"
  by (simp add: stateAt1_def browseAt1_def deleteView_def renameView_def createViews_def
      ensureView_def newView_def emptyData_def GENERAL_VIEW_ID_def)

subsection \<open>Moving a playlist entry\<close>









subsection \<open>Moving a record of the view\<close>


















text \<open>
  The second half of \<open>movePlaylistGame\<close> compares the index of the source in the playlist
  (\<open>sourceIdx\<close>) with the position of the destination among the records (\<open>destIndex\<close>), and
  starts its first loop from \<open>sourceIdx\<close>. Where the source is not at that position among
  the records, the records are not shifted as above: with \<open>A\<close> left out of the view, moving
  \<open>B\<close> after \<open>D\<close> reorders the playlist as expected and leaves the records \<open>D\<close> at offset 1
  and \<open>B\<close> at offset 2, without \<open>C\<close>.
\<close>

lemma movePlaylistGame_filtered_example:
  "recordsOf stateFiltered ''Browse'' = [(0, ''B''), (1, ''C''), (2, ''D'')]
   \<and> playlistOf (movePlaylistGame stateFiltered moveBafterD) ''Browse'' = [''A'', ''C'', ''D'', ''B'']
   \<and> recordsOf (movePlaylistGame stateFiltered moveBafterD) ''Browse'' = [(1, ''D''), (2, ''B'')]"
  by code_simp

subsection \<open>The records of a view stay in ascending key order\<close>

text \<open>
  Every write to \<open>view.data.games\<close> goes through \<open>obj_set\<close>, from the empty record or from a
  record in ascending order, so the ascending order that the statement on moved records
  above asks of them holds in every state the reducers produce from the initial one.
\<close>

lemma obj_set_keys: "fst ` set (obj_set k v m) = insert k (fst ` set m)"
  by (induction m) auto

lemma obj_set_sorted:
  "sorted_wrt (<) (map fst m) \<Longrightarrow> sorted_wrt (<) (map fst (obj_set k v m))"
proof (induction m)
  case Nil
  then show ?case by simp
next
  case (Cons e m)
  then have tail: "sorted_wrt (<) (map fst (obj_set k v m))"
    and above: "\<forall>x \<in> fst ` set m. fst e < x"
    and rest: "sorted_wrt (<) (map fst m)" by auto
  show ?case
  proof (cases "fst e = k")
    case True
    with above rest show ?thesis by auto
  next
    case False
    show ?thesis
    proof (cases "k < fst e")
      case True
      with above rest False show ?thesis by auto
    next
      case ge: False
      with False have "fst e < k" by simp
      with above have "\<forall>x \<in> fst ` set (obj_set k v m). fst e < x"
        by (simp add: obj_set_keys)
      with tail False ge show ?thesis by auto
    qed
  qed
qed

lemma writeGames_sorted:
  "sorted_wrt (<) (map fst m) \<Longrightarrow> sorted_wrt (<) (map fst (writeGames s i gs m))"
  by (induction gs arbitrary: i m) (simp_all add: obj_set_sorted)

lemma fromEntries_sorted: "sorted_wrt (<) (map fst (fromEntries es))"
proof -
  have "sorted_wrt (<) (map fst (fold (\<lambda>e obj. obj_set (fst e) (snd e) obj) es m))"
    if "sorted_wrt (<) (map fst m)" for m :: "(nat \<times> 'a) list"
    using that by (induction es arbitrary: m) (simp_all add: obj_set_sorted)
  from this [of "[]"] show ?thesis by (simp add: fromEntries_def)
qed

end
